theory Spec2Isabelle
  imports Main "HOL-Library.Word"
begin

section \<open>Data model\<close>

text \<open>
  The program's \<open>int\<close> is a 32-bit two's-complement integer: \<open>+\<close>, \<open>-\<close> and \<open>*\<close> on
  \<open>32 word\<close> wrap around, \<open>sint\<close> reads the signed value, \<open><s\<close> is the signed
  comparison of the two loop conditions.
\<close>

type_synonym int32 = "32 word"

text \<open>The three pipes, named by their forward-declared identifier classes.\<close>

datatype pipe_id = IDPipeA | IDPipeB | IDPipeC

text \<open>
  Every pipe operation that completes is recorded, in program order, so that the number
  and the order of reads and writes of a run can be stated.
\<close>

datatype event = Pipe_write pipe_id int32 | Pipe_read pipe_id int32

record pipes =
  contents :: "pipe_id \<Rightarrow> int32 list"
  trace :: "event list"

text \<open>
  Modelled from the spec: the pipe classes \<open>sycl::ext::intel::experimental::pipe\<close> are
  declared in the SYCL headers, which are not among the sources. Following section 4.1,
  \<open>write\<close> appends one element and never suspends the producer here (the input pipes
  are filled by the host before the kernel runs, the output pipe uses the protocol
  without a ready signal), and \<open>read\<close> removes and returns the oldest unread element,
  suspending the caller when there is none: \<open>None\<close> is a read that never returns.
\<close>

definition pipe_write :: "pipe_id \<Rightarrow> int32 \<Rightarrow> pipes \<Rightarrow> pipes" where
  "pipe_write p v st =
     st\<lparr>contents := (contents st)(p := contents st p @ [v]),
        trace := trace st @ [Pipe_write p v]\<rparr>"

definition pipe_read :: "pipe_id \<Rightarrow> pipes \<Rightarrow> (int32 \<times> pipes) option" where
  "pipe_read p st =
     (case contents st p of
        [] \<Rightarrow> None
      | v # vs \<Rightarrow>
          Some (v, st\<lparr>contents := (contents st)(p := vs),
                      trace := trace st @ [Pipe_read p v]\<rparr>))"

section \<open>The kernel\<close>

text \<open>
  A signed loop index below its bound is below the largest \<open>int\<close>, so incrementing it
  does not wrap. Both loops of the program terminate by this fact.
\<close>

lemma sint_succ_below:
  fixes idx :: int32
  assumes "idx <s len"
  shows "sint (idx + 1) = sint idx + 1"
proof -
  have "sint idx < sint len"
    using assms by (simp add: word_sless_alt)
  moreover have "sint len < 2 ^ 31"
    using sint_lt [of len] by simp
  moreover have "- (2 ^ 31) \<le> sint idx"
    using sint_ge [of idx] by simp
  ultimately have "signed_take_bit 31 (sint idx + 1) = sint idx + 1"
    by (intro signed_take_bit_int_eq_self) simp_all
  then show ?thesis
    by (simp add: sint_word_ariths)
qed

text \<open>
  The loop of \<open>SimpleVAddKernel::operator()\<close>, with the loop variables \<open>idx\<close> and
  \<open>sum_total\<close> as arguments. A read that suspends forever makes the whole loop \<open>None\<close>.
\<close>

function kernel_loop :: "int32 \<Rightarrow> int32 \<Rightarrow> int32 \<Rightarrow> pipes \<Rightarrow> (int32 \<times> pipes) option" where
  "kernel_loop len idx sum_total st =
     (if idx <s len then
        (case pipe_read IDPipeA st of
           None \<Rightarrow> None
         | Some (a_val, st1) \<Rightarrow>
             (case pipe_read IDPipeB st1 of
                None \<Rightarrow> None
              | Some (b_val, st2) \<Rightarrow>
                  (let sum = a_val + b_val
                   in kernel_loop len (idx + 1) (sum_total + sum) st2)))
      else Some (sum_total, st))"
  by pat_completeness auto
termination
  by (relation "measure (\<lambda>(len, idx, sum_total, st). nat (sint len - sint idx))")
     (auto simp: sint_succ_below word_sless_alt)

declare kernel_loop.simps [simp del]

text \<open>
  \<open>SimpleVAddKernel::operator()\<close>: the accumulator starts at zero, the loop runs, and
  the total is written to \<open>OutputPipeC\<close> once.
\<close>

definition SimpleVAddKernel :: "int32 \<Rightarrow> pipes \<Rightarrow> pipes option" where
  "SimpleVAddKernel len st =
     (let sum_total = 0
      in case kernel_loop len 0 sum_total st of
           None \<Rightarrow> None
         | Some (sum_total, st') \<Rightarrow> Some (pipe_write IDPipeC sum_total st'))"

section \<open>The host program\<close>

text \<open>What is inserted into \<open>std::cout\<close> and \<open>std::cerr\<close>, item by item.\<close>

datatype out_item = Str string | Num int32 | Endl

record world =
  pipe_state :: pipes
  cout :: "out_item list"
  cerr :: "out_item list"

definition print_cout :: "out_item list \<Rightarrow> world \<Rightarrow> world" where
  "print_cout items w = w\<lparr>cout := cout w @ items\<rparr>"

definition print_cerr :: "out_item list \<Rightarrow> world \<Rightarrow> world" where
  "print_cerr items w = w\<lparr>cerr := cerr w @ items\<rparr>"

text \<open>
  The SYCL runtime and the device are not part of the sources, so \<open>main\<close> takes them as
  a parameter. The calls \<open>main\<close> makes into the runtime are listed in \<open>sycl_call\<close>
  (a host pipe write carries the loop index of the call); \<open>throws\<close> says which of them
  raise a \<open>sycl::exception\<close>, and with which \<open>what()\<close> text. \<open>run_task\<close> is what the
  selected device does with a submitted kernel; the device that executes the kernel
  as written is \<open>\<lambda>k. k\<close>.
\<close>

datatype sycl_exception = Sycl_exception string

datatype sycl_call =
    Queue_ctor
  | Get_device
  | Get_info
  | Host_pipe_write pipe_id int32
  | Single_task
  | Event_wait
  | Host_pipe_read pipe_id

record runtime =
  device_name :: string
  throws :: "sycl_call \<Rightarrow> string option"
  run_task :: "(pipes \<Rightarrow> pipes option) \<Rightarrow> pipes \<Rightarrow> pipes option"

text \<open>
  A statement of the \<open>try\<close> block completes normally with a value, throws a
  \<open>sycl::exception\<close>, or never returns. Each case carries the world it leaves behind.
\<close>

datatype 'a res = Normal 'a world | Throw sycl_exception world | Hang world

definition and_then :: "'a res \<Rightarrow> ('a \<Rightarrow> world \<Rightarrow> 'b res) \<Rightarrow> 'b res" where
  "and_then r f =
     (case r of Normal x w \<Rightarrow> f x w | Throw e w \<Rightarrow> Throw e w | Hang w \<Rightarrow> Hang w)"

lemma and_then_cong [fundef_cong]:
  assumes "r = r'" and "\<And>x w. r' = Normal x w \<Longrightarrow> f x w = f' x w"
  shows "and_then r f = and_then r' f'"
  using assms by (simp add: and_then_def split: res.splits)

definition sycl :: "runtime \<Rightarrow> sycl_call \<Rightarrow> world \<Rightarrow> unit res" where
  "sycl rt c w =
     (case throws rt c of
        Some what \<Rightarrow> Throw (Sycl_exception what) w
      | None \<Rightarrow> Normal () w)"

text \<open>\<open>InputPipeA::write(q, v)\<close> and \<open>InputPipeB::write(q, v)\<close> in host code.\<close>

definition host_pipe_write :: "runtime \<Rightarrow> pipe_id \<Rightarrow> int32 \<Rightarrow> int32 \<Rightarrow> world \<Rightarrow> unit res" where
  "host_pipe_write rt p i v w =
     and_then (sycl rt (Host_pipe_write p i) w)
       (\<lambda>_ w. Normal () (w\<lparr>pipe_state := pipe_write p v (pipe_state w)\<rparr>))"

text \<open>\<open>OutputPipeC::read(q)\<close> in host code.\<close>

definition host_pipe_read :: "runtime \<Rightarrow> pipe_id \<Rightarrow> world \<Rightarrow> int32 res" where
  "host_pipe_read rt p w =
     and_then (sycl rt (Host_pipe_read p) w)
       (\<lambda>_ w. case pipe_read p (pipe_state w) of
                 None \<Rightarrow> Hang w
               | Some (v, st) \<Rightarrow> Normal v (w\<lparr>pipe_state := st\<rparr>))"

text \<open>
  \<open>q.single_task<IDSimpleVAdd>(k)\<close>: the device runs the task. The task has finished
  before \<open>e.wait()\<close> returns and the host does not touch the pipes in between, so its
  effect is applied here; a task that never finishes leaves the host waiting forever.
\<close>

definition single_task :: "runtime \<Rightarrow> (pipes \<Rightarrow> pipes option) \<Rightarrow> world \<Rightarrow> unit res" where
  "single_task rt k w =
     and_then (sycl rt Single_task w)
       (\<lambda>_ w. case run_task rt k (pipe_state w) of
                 None \<Rightarrow> Hang w
               | Some st \<Rightarrow> Normal () (w\<lparr>pipe_state := st\<rparr>))"

text \<open>
  \<open>new int[count]\<close>: the cells are indeterminate in C++; the program assigns every cell
  before it reads it. Memory is taken to be unbounded, and the count not to be negative
  (\<open>main\<close> passes \<open>kVectorSize\<close>; a negative count would make the expression throw
  \<open>std::bad_array_new_length\<close>).
\<close>

definition new_int_array :: "int32 \<Rightarrow> int32 list" where
  "new_int_array count = replicate (nat (sint count)) 0"

text \<open>
  The loop of \<open>main\<close> that fills the arrays, accumulates \<open>expected_sum\<close> and pushes
  the data into the two input pipes.
\<close>

function harness_loop ::
  "runtime \<Rightarrow> int32 \<Rightarrow> int32 \<Rightarrow> int32 list \<Rightarrow> int32 list \<Rightarrow> int32 \<Rightarrow> world
     \<Rightarrow> (int32 list \<times> int32 list \<times> int32) res" where
  "harness_loop rt count i a b expected_sum w =
     (if i <s count then
        (let a = a[unat i := i];
             b = b[unat i := count - i];
             expected_sum = expected_sum + (a ! unat i + b ! unat i)
         in and_then (host_pipe_write rt IDPipeA i (a ! unat i) w) (\<lambda>_ w.
            and_then (host_pipe_write rt IDPipeB i (b ! unat i) w) (\<lambda>_ w.
            harness_loop rt count (i + 1) a b expected_sum w)))
      else Normal (a, b, expected_sum) w)"
  by pat_completeness auto
termination
  by (relation "measure (\<lambda>(rt, count, i, a, b, expected_sum, w). nat (sint count - sint i))")
     (auto simp: sint_succ_below word_sless_alt)

declare harness_loop.simps [simp del]

definition kVectorSize :: int32 where
  "kVectorSize = 256"

text \<open>\<open>EXIT_SUCCESS\<close> and \<open>EXIT_FAILURE\<close> of \<open><cstdlib>\<close>.\<close>

definition EXIT_SUCCESS :: int32 where
  "EXIT_SUCCESS = 0"

definition EXIT_FAILURE :: int32 where
  "EXIT_FAILURE = 1"

text \<open>
  The \<open>try\<close> block of \<open>main\<close>. The vector size is a parameter (``it could be a run-time
  variable too''); \<open>main\<close> passes \<open>kVectorSize\<close>. Beside the returned exit status the
  result keeps the locals \<open>calc\<close> and \<open>expected_sum\<close> as they are at the \<open>return\<close>.
  The operands of \<open><<\<close> are evaluated from left to right, so the text ``Running on device: ''
  is already on \<open>std::cout\<close> when \<open>get_info\<close> is called.
  The two \<open>delete[]\<close> statements have no effect on anything observed here.
\<close>

definition main_try :: "runtime \<Rightarrow> int32 \<Rightarrow> world \<Rightarrow> (int32 \<times> int32 \<times> int32) res" where
  "main_try rt count w =
     and_then (sycl rt Queue_ctor w) (\<lambda>_ w.
     and_then (sycl rt Get_device w) (\<lambda>_ w.
     let w = print_cout [Str ''Running on device: ''] w
     in
     and_then (sycl rt Get_info w) (\<lambda>_ w.
     let w = print_cout [Str (device_name rt), Endl] w;
         expected_sum = 0;
         a = new_int_array count;
         b = new_int_array count
     in
     and_then (harness_loop rt count 0 a b expected_sum w) (\<lambda>(a, b, expected_sum) w.
     let w = print_cout [Str ''Add two vectors of size '', Num count, Endl] w
     in
     and_then (single_task rt (SimpleVAddKernel count) w) (\<lambda>_ w.
     and_then (sycl rt Event_wait w) (\<lambda>_ w.
     let passed = True
     in
     and_then (host_pipe_read rt IDPipeC w) (\<lambda>calc w.
     let (passed, w) =
           (if calc \<noteq> expected_sum
            then (False,
                  print_cout [Str ''result '', Num calc, Str '', expected ('',
                              Num expected_sum, Str '')'', Endl] w)
            else (passed, w));
         w = print_cout [Str (if passed then ''PASSED'' else ''FAILED''), Endl] w
     in Normal (if passed then EXIT_SUCCESS else EXIT_FAILURE, calc, expected_sum) w)))))))"

text \<open>
  How a run of the program ends: \<open>main\<close> returns an exit status, the handler calls
  \<open>std::terminate\<close>, or the program waits forever.
\<close>

datatype outcome = Exit int32 | Terminate | Suspended

definition start :: world where
  "start = \<lparr>pipe_state = \<lparr>contents = (\<lambda>_. []), trace = []\<rparr>, cout = [], cerr = []\<rparr>"

definition main :: "runtime \<Rightarrow> outcome \<times> world" where
  "main rt =
     (case main_try rt kVectorSize start of
        Normal (code, calc, expected_sum) w \<Rightarrow> (Exit code, w)
      | Throw (Sycl_exception what) w \<Rightarrow>
          (Terminate,
           print_cerr [Str ''Caught a synchronous SYCL exception: '', Str what, Endl,
                       Str ''   If you are targeting an FPGA hardware, ensure that your system is plugged to an FPGA board that is set up correctly'',
                       Endl] w)
      | Hang w \<Rightarrow> (Suspended, w))"

section \<open>Observations of a run\<close>

text \<open>
  The events of \<open>n\<close> iterations of the kernel loop that read the values \<open>xs\<close> from
  \<open>InputPipeA\<close> and \<open>ys\<close> from \<open>InputPipeB\<close>: one read of each pipe per iteration.
\<close>

fun paired_reads :: "int32 list \<Rightarrow> int32 list \<Rightarrow> event list" where
  "paired_reads (x # xs) (y # ys) = Pipe_read IDPipeA x # Pipe_read IDPipeB y # paired_reads xs ys"
| "paired_reads xs ys = []"

text \<open>The values read from, and written to, one pipe in a sequence of events.\<close>

fun reads_of :: "pipe_id \<Rightarrow> event list \<Rightarrow> int32 list" where
  "reads_of p [] = []"
| "reads_of p (Pipe_read q v # es) = (if q = p then v # reads_of p es else reads_of p es)"
| "reads_of p (Pipe_write q v # es) = reads_of p es"

fun writes_of :: "pipe_id \<Rightarrow> event list \<Rightarrow> int32 list" where
  "writes_of p [] = []"
| "writes_of p (Pipe_write q v # es) = (if q = p then v # writes_of p es else writes_of p es)"
| "writes_of p (Pipe_read q v # es) = writes_of p es"

text \<open>
  The value an invocation of the kernel writes to \<open>OutputPipeC\<close>: the write appends,
  so it is the last element of the pipe afterwards. \<open>None\<close> when the kernel is suspended
  in a read and never writes.
\<close>

definition kernel_output :: "int32 \<Rightarrow> pipes \<Rightarrow> int32 option" where
  "kernel_output len st =
     (case SimpleVAddKernel len st of
        None \<Rightarrow> None
      | Some st' \<Rightarrow> Some (last (contents st' IDPipeC)))"

text \<open>
  The events of the harness loop pushing the values \<open>xs\<close> into \<open>InputPipeA\<close> and \<open>ys\<close>
  into \<open>InputPipeB\<close>, one of each per iteration.
\<close>

fun paired_writes :: "int32 list \<Rightarrow> int32 list \<Rightarrow> event list" where
  "paired_writes (x # xs) (y # ys) = Pipe_write IDPipeA x # Pipe_write IDPipeB y # paired_writes xs ys"
| "paired_writes xs ys = []"

text \<open>The two input vectors the harness builds: \<open>a[i] = i\<close> and \<open>b[i] = count - i\<close>.\<close>

definition input_a :: "int32 \<Rightarrow> int32 list" where
  "input_a count = map of_nat [0..<nat (sint count)]"

definition input_b :: "int32 \<Rightarrow> int32 list" where
  "input_b count = map (\<lambda>j. count - of_nat j) [0..<nat (sint count)]"

text \<open>The value of \<open>expected_sum\<close> when the harness loop is left, if it is left normally.\<close>

definition expected_sum_of :: "(int32 list \<times> int32 list \<times> int32) res \<Rightarrow> int32 option" where
  "expected_sum_of r =
     (case r of
        Normal (a, b, expected_sum) w \<Rightarrow> Some expected_sum
      | Throw e w \<Rightarrow> None
      | Hang w \<Rightarrow> None)"


text \<open>
  Three runtimes to run the program on: one where no call throws and the device executes
  the kernel as written, one where the device is lost while the host waits for the
  kernel, and one whose device writes a wrong result to \<open>OutputPipeC\<close>.
\<close>

definition faithful_runtime :: runtime where
  "faithful_runtime =
     \<lparr>device_name = ''Intel(R) FPGA Emulation Device'', throws = (\<lambda>c. None),
      run_task = (\<lambda>k. k)\<rparr>"


definition wrong_result_runtime :: runtime where
  "wrong_result_runtime =
     faithful_runtime\<lparr>run_task := (\<lambda>k st. Some (pipe_write IDPipeC 5 st))\<rparr>"

section \<open>Pipes and the kernel loop\<close>


lemma contents_pipe_write [simp]:
  "contents (pipe_write p v st) q = (if q = p then contents st p @ [v] else contents st q)"
  by (simp add: pipe_write_def)

lemma trace_pipe_write [simp]:
  "trace (pipe_write p v st) = trace st @ [Pipe_write p v]"
  by (simp add: pipe_write_def)

lemma kernel_loop_stop: "\<not> idx <s len \<Longrightarrow> kernel_loop len idx s st = Some (s, st)"
  by (simp add: kernel_loop.simps)

lemma kernel_loop_step:
  assumes "idx <s len" and "contents st IDPipeA = x # xs" and "contents st IDPipeB = y # ys"
  shows "kernel_loop len idx s st =
           kernel_loop len (idx + 1) (s + (x + y))
             (st\<lparr>contents := (contents st)(IDPipeA := xs, IDPipeB := ys),
                 trace := trace st @ [Pipe_read IDPipeA x, Pipe_read IDPipeB y]\<rparr>)"
  using assms by (subst kernel_loop.simps) (simp add: pipe_read_def)

lemma kernel_loop_run:
  assumes "n = nat (sint len - sint idx)"
    and "n \<le> length (contents st IDPipeA)" and "n \<le> length (contents st IDPipeB)"
  shows "\<exists>st'. kernel_loop len idx s st =
              Some (s + sum_list (map2 (+) (take n (contents st IDPipeA)) (take n (contents st IDPipeB))), st')
           \<and> contents st' IDPipeA = drop n (contents st IDPipeA)
           \<and> contents st' IDPipeB = drop n (contents st IDPipeB)
           \<and> contents st' IDPipeC = contents st IDPipeC
           \<and> trace st' = trace st @ paired_reads (take n (contents st IDPipeA)) (take n (contents st IDPipeB))"
  using assms
proof (induction n arbitrary: idx s st)
  case 0
  then have "\<not> idx <s len" by (simp add: word_sless_alt)
  then show ?case by (simp add: kernel_loop_stop)
next
  case (Suc n)
  from Suc.prems(1) have lt: "idx <s len" by (simp add: word_sless_alt)
  from Suc.prems(1) have n: "n = nat (sint len - sint (idx + 1))"
    by (simp add: sint_succ_below [OF lt])
  from Suc.prems(2) obtain x xs where A: "contents st IDPipeA = x # xs"
    by (cases "contents st IDPipeA") auto
  from Suc.prems(3) obtain y ys where B: "contents st IDPipeB = y # ys"
    by (cases "contents st IDPipeB") auto
  define st2 where "st2 = st\<lparr>contents := (contents st)(IDPipeA := xs, IDPipeB := ys),
                 trace := trace st @ [Pipe_read IDPipeA x, Pipe_read IDPipeB y]\<rparr>"
  have step: "kernel_loop len idx s st = kernel_loop len (idx + 1) (s + (x + y)) st2"
    unfolding st2_def by (rule kernel_loop_step [OF lt A B])
  have c2: "contents st2 IDPipeA = xs" "contents st2 IDPipeB = ys"
    "contents st2 IDPipeC = contents st IDPipeC"
    "trace st2 = trace st @ [Pipe_read IDPipeA x, Pipe_read IDPipeB y]"
    by (simp_all add: st2_def)
  have "n \<le> length (contents st2 IDPipeA)" "n \<le> length (contents st2 IDPipeB)"
    using Suc.prems(2,3) A B c2 by simp_all
  from Suc.IH [OF n this, of "s + (x + y)"] obtain st' where
    "kernel_loop len (idx + 1) (s + (x + y)) st2 =
       Some (s + (x + y) + sum_list (map2 (+) (take n xs) (take n ys)), st')"
    "contents st' IDPipeA = drop n xs" "contents st' IDPipeB = drop n ys"
    "contents st' IDPipeC = contents st IDPipeC"
    "trace st' = trace st @ [Pipe_read IDPipeA x, Pipe_read IDPipeB y] @ paired_reads (take n xs) (take n ys)"
    by (auto simp: c2)
  then show ?case
    by (simp add: step A B add.assoc)
qed

lemma kernel_loop_blocked:
  assumes "n = nat (sint len - sint idx)"
    and "length (contents st IDPipeA) < n \<or> length (contents st IDPipeB) < n"
  shows "kernel_loop len idx s st = None"
  using assms
proof (induction n arbitrary: idx s st)
  case 0
  then show ?case by simp
next
  case (Suc n)
  from Suc.prems(1) have lt: "idx <s len" by (simp add: word_sless_alt)
  from Suc.prems(1) have n: "n = nat (sint len - sint (idx + 1))"
    by (simp add: sint_succ_below [OF lt])
  show ?case
  proof (cases "contents st IDPipeA")
    case Nil
    then show ?thesis using lt by (subst kernel_loop.simps) (simp add: pipe_read_def)
  next
    case A: (Cons x xs)
    show ?thesis
    proof (cases "contents st IDPipeB")
      case Nil
      then show ?thesis using lt A by (subst kernel_loop.simps) (simp add: pipe_read_def)
    next
      case B: (Cons y ys)
      have "length xs < n \<or> length ys < n"
        using Suc.prems(2) A B by auto
      then show ?thesis
        by (simp add: kernel_loop_step [OF lt A B] Suc.IH [OF n])
    qed
  qed
qed


lemma reads_of_append [simp]: "reads_of p (es @ fs) = reads_of p es @ reads_of p fs"
  by (induction p es rule: reads_of.induct) simp_all

lemma writes_of_append [simp]: "writes_of p (es @ fs) = writes_of p es @ writes_of p fs"
  by (induction p es rule: writes_of.induct) simp_all

lemma reads_of_paired_reads:
  assumes "length xs = length ys"
  shows "reads_of IDPipeA (paired_reads xs ys) = xs"
    and "reads_of IDPipeB (paired_reads xs ys) = ys"
    and "reads_of IDPipeC (paired_reads xs ys) = []"
    and "writes_of p (paired_reads xs ys) = []"
  using assms by (induction xs ys rule: list_induct2; simp)+

lemma foldl_pair_sums:
  fixes s :: int32
  shows "foldl (\<lambda>acc (x, y). acc + (x + y)) s zs = s + sum_list (map (\<lambda>(x, y). x + y) zs)"
  by (induction zs arbitrary: s) (auto simp: add.assoc)

lemma SimpleVAddKernel_run:
  assumes "n = nat (sint len)"
    and "n \<le> length (contents st IDPipeA)" and "n \<le> length (contents st IDPipeB)"
  shows "\<exists>st'. SimpleVAddKernel len st = Some st'
           \<and> contents st' IDPipeA = drop n (contents st IDPipeA)
           \<and> contents st' IDPipeB = drop n (contents st IDPipeB)
           \<and> contents st' IDPipeC = contents st IDPipeC
                @ [sum_list (map2 (+) (take n (contents st IDPipeA)) (take n (contents st IDPipeB)))]
           \<and> trace st' = trace st
                @ paired_reads (take n (contents st IDPipeA)) (take n (contents st IDPipeB))
                @ [Pipe_write IDPipeC
                     (sum_list (map2 (+) (take n (contents st IDPipeA)) (take n (contents st IDPipeB))))]"
proof -
  from assms(1) have "n = nat (sint len - sint (0 :: int32))" by simp
  from kernel_loop_run [OF this assms(2,3), of 0] obtain st1 where
    "kernel_loop len 0 0 st =
       Some (sum_list (map2 (+) (take n (contents st IDPipeA)) (take n (contents st IDPipeB))), st1)"
    "contents st1 IDPipeA = drop n (contents st IDPipeA)"
    "contents st1 IDPipeB = drop n (contents st IDPipeB)"
    "contents st1 IDPipeC = contents st IDPipeC"
    "trace st1 = trace st @ paired_reads (take n (contents st IDPipeA)) (take n (contents st IDPipeB))"
    by auto
  then show ?thesis
    by (simp add: SimpleVAddKernel_def)
qed

lemma SimpleVAddKernel_blocked:
  assumes "n = nat (sint len)"
    and "length (contents st IDPipeA) < n \<or> length (contents st IDPipeB) < n"
  shows "SimpleVAddKernel len st = None"
proof -
  from assms(1) have "n = nat (sint len - sint (0 :: int32))" by simp
  from kernel_loop_blocked [OF this assms(2)] show ?thesis
    by (simp add: SimpleVAddKernel_def)
qed

lemma kernel_output_eq:
  "kernel_output len st =
     (if nat (sint len) \<le> length (contents st IDPipeA) \<and> nat (sint len) \<le> length (contents st IDPipeB)
      then Some (sum_list (map2 (+) (take (nat (sint len)) (contents st IDPipeA))
                                     (take (nat (sint len)) (contents st IDPipeB))))
      else None)"
proof (cases "nat (sint len) \<le> length (contents st IDPipeA) \<and> nat (sint len) \<le> length (contents st IDPipeB)")
  case True
  then have a: "nat (sint len) \<le> length (contents st IDPipeA)"
    and b: "nat (sint len) \<le> length (contents st IDPipeB)" by simp_all
  from SimpleVAddKernel_run [OF refl a b] True show ?thesis
    by (auto simp: kernel_output_def)
next
  case False
  then have "length (contents st IDPipeA) < nat (sint len) \<or> length (contents st IDPipeB) < nat (sint len)"
    by auto
  from SimpleVAddKernel_blocked [OF refl this] False show ?thesis
    by (simp add: kernel_output_def)
qed

lemma sum_list_map2_commute:
  fixes xs ys :: "int32 list"
  shows "sum_list (map2 (+) xs ys) = sum_list (map2 (+) ys xs)"
proof (induction xs arbitrary: ys)
  case Nil
  then show ?case by simp
next
  case (Cons x xs)
  then show ?case by (cases ys) (simp_all add: add.commute)
qed

lemma sum_list_map2_nth:
  fixes xs ys :: "int32 list"
  assumes "length xs = n" and "length ys = n"
  shows "sum_list (map2 (+) xs ys) = (\<Sum>i<n. xs ! i + ys ! i)"
proof -
  have "sum_list (map2 (+) xs ys) = (\<Sum>i = 0..<n. map2 (+) xs ys ! i)"
    using assms by (simp add: sum_list_sum_nth)
  also have "\<dots> = (\<Sum>i = 0..<n. xs ! i + ys ! i)"
    using assms by (intro sum.cong) simp_all
  finally show ?thesis by (simp add: atLeast0LessThan)
qed

lemma uint_sum_sint:
  fixes f :: "nat \<Rightarrow> int32"
  shows "uint (\<Sum>i<n. f i) = (\<Sum>i<n. sint (f i)) mod 2 ^ 32"
proof -
  have "(\<Sum>i<n. f i) = word_of_int (\<Sum>i<n. sint (f i))"
    by simp
  then have "uint (\<Sum>i<n. f i) = uint (word_of_int (\<Sum>i<n. sint (f i)) :: int32)"
    by simp
  also have "\<dots> = (\<Sum>i<n. sint (f i)) mod 2 ^ 32"
    by (simp only: uint_word_of_int) simp
  finally show ?thesis .
qed

section \<open>Properties of the kernel\<close>

lemma uint_sum_pairs_sint:
  fixes f g :: "nat \<Rightarrow> int32"
  shows "uint (\<Sum>i<n. f i + g i) = (\<Sum>i<n. sint (f i) + sint (g i)) mod 2 ^ 32"
proof -
  have "(\<Sum>i<n. f i + g i) = word_of_int (\<Sum>i<n. sint (f i) + sint (g i))"
    by simp
  then have "uint (\<Sum>i<n. f i + g i) = uint (word_of_int (\<Sum>i<n. sint (f i) + sint (g i)) :: int32)"
    by simp
  also have "\<dots> = (\<Sum>i<n. sint (f i) + sint (g i)) mod 2 ^ 32"
    by (simp only: uint_word_of_int) simp
  finally show ?thesis .
qed

text \<open>
  Claim C2. With \<open>n\<close> the count, and at least \<open>n\<close> values waiting in each input pipe, the
  kernel returns, and the events it adds to the trace are \<open>n\<close> paired reads (one of
  \<open>InputPipeA\<close>, then one of \<open>InputPipeB\<close>, per iteration) followed by one write to
  \<open>OutputPipeC\<close>. The value written is the running total, started at zero, of the sums
  of the pairs. A negative count behaves as the count zero.
\<close>

theorem kernel_reads_pairs_writes_once:
  assumes "n = nat (sint len)"
    and "contents st IDPipeA = xs" and "contents st IDPipeB = ys"
    and "n \<le> length xs" and "n \<le> length ys"
  shows "\<exists>st' evs total.
           SimpleVAddKernel len st = Some st'
         \<and> trace st' = trace st @ evs
         \<and> evs = paired_reads (take n xs) (take n ys) @ [Pipe_write IDPipeC total]
         \<and> total = foldl (\<lambda>acc (x, y). acc + (x + y)) 0 (zip (take n xs) (take n ys))
         \<and> reads_of IDPipeA evs = take n xs \<and> length (reads_of IDPipeA evs) = n
         \<and> reads_of IDPipeB evs = take n ys \<and> length (reads_of IDPipeB evs) = n
         \<and> reads_of IDPipeC evs = []
         \<and> writes_of IDPipeA evs = [] \<and> writes_of IDPipeB evs = []
         \<and> writes_of IDPipeC evs = [total]
         \<and> contents st' IDPipeA = drop n xs \<and> contents st' IDPipeB = drop n ys
         \<and> contents st' IDPipeC = contents st IDPipeC @ [total]"
proof -
  have len: "length (take n xs) = length (take n ys)"
    using assms(4,5) by simp
  have a: "n \<le> length (contents st IDPipeA)" and b: "n \<le> length (contents st IDPipeB)"
    using assms by simp_all
  from SimpleVAddKernel_run [OF assms(1) a b] obtain st' where
    "SimpleVAddKernel len st = Some st'"
    "contents st' IDPipeA = drop n xs" "contents st' IDPipeB = drop n ys"
    "contents st' IDPipeC = contents st IDPipeC @ [sum_list (map2 (+) (take n xs) (take n ys))]"
    "trace st' = trace st @ paired_reads (take n xs) (take n ys)
       @ [Pipe_write IDPipeC (sum_list (map2 (+) (take n xs) (take n ys)))]"
    by (auto simp: assms(2,3))
  moreover have "length (take n xs) = n"
    using assms(4) by simp
  moreover have "length (take n ys) = n"
    using assms(5) by simp
  ultimately show ?thesis
    by (simp add: reads_of_paired_reads [OF len] foldl_pair_sums)
qed

theorem kernel_reads_pairs_writes_once_witness:
  "\<exists>st'. SimpleVAddKernel 2
       \<lparr>contents = (\<lambda>p. if p = IDPipeA then [1, 2, 3] else if p = IDPipeB then [10, 20] else [7]),
        trace = []\<rparr> = Some st'
     \<and> trace st' = [Pipe_read IDPipeA 1, Pipe_read IDPipeB 10, Pipe_read IDPipeA 2,
                     Pipe_read IDPipeB 20, Pipe_write IDPipeC 33]
     \<and> contents st' IDPipeA = [3] \<and> contents st' IDPipeB = [] \<and> contents st' IDPipeC = [7, 33]"
  using kernel_reads_pairs_writes_once [of 2 2
      "\<lparr>contents = (\<lambda>p. if p = IDPipeA then [1, 2, 3] else if p = IDPipeB then [10, 20] else [7]),
        trace = []\<rparr>" "[1, 2, 3]" "[10, 20]"]
  by simp blast

text \<open>
  Claim C4. For every count and every two input sequences, feeding \<open>ys\<close> into
  \<open>InputPipeA\<close> and \<open>xs\<close> into \<open>InputPipeB\<close> gives the same output value as feeding
  \<open>xs\<close> into \<open>InputPipeA\<close> and \<open>ys\<close> into \<open>InputPipeB\<close> (and when one arrangement
  leaves the kernel suspended, so does the other).
\<close>

theorem kernel_output_swap_inputs:
  "kernel_output len (st\<lparr>contents := (contents st)(IDPipeA := ys, IDPipeB := xs)\<rparr>)
     = kernel_output len (st\<lparr>contents := (contents st)(IDPipeA := xs, IDPipeB := ys)\<rparr>)"
  by (simp add: kernel_output_eq sum_list_map2_commute [of "take (nat (sint len)) ys"] conj_commute)

text \<open>
  Claim C5. With the count zero the loop reads nothing and leaves the accumulator at 0,
  and the kernel performs one write, of the value 0, to \<open>OutputPipeC\<close>; the input pipes
  are untouched.
\<close>

theorem kernel_count_zero:
  "kernel_loop 0 0 0 st = Some (0, st)
   \<and> SimpleVAddKernel 0 st = Some (pipe_write IDPipeC 0 st)
   \<and> trace (pipe_write IDPipeC 0 st) = trace st @ [Pipe_write IDPipeC 0]
   \<and> contents (pipe_write IDPipeC 0 st) IDPipeA = contents st IDPipeA
   \<and> contents (pipe_write IDPipeC 0 st) IDPipeB = contents st IDPipeB
   \<and> contents (pipe_write IDPipeC 0 st) IDPipeC = contents st IDPipeC @ [0]
   \<and> kernel_output 0 st = Some 0"
  by (simp add: kernel_loop_stop SimpleVAddKernel_def kernel_output_def)

text \<open>
  Claim C9. The value written is a function of the count and of the first count values
  of the two input pipes alone: two invocations that agree on these write the same
  value, whatever else the two states hold (earlier contents of \<open>OutputPipeC\<close>, the
  trace, further values in the input pipes).
\<close>

theorem kernel_output_deterministic:
  assumes "take (nat (sint len)) (contents st1 IDPipeA) = take (nat (sint len)) (contents st2 IDPipeA)"
    and "take (nat (sint len)) (contents st1 IDPipeB) = take (nat (sint len)) (contents st2 IDPipeB)"
  shows "kernel_output len st1 = kernel_output len st2"
proof -
  from assms(1) have "length (take (nat (sint len)) (contents st1 IDPipeA))
      = length (take (nat (sint len)) (contents st2 IDPipeA))" by simp
  then have a: "nat (sint len) \<le> length (contents st1 IDPipeA)
      \<longleftrightarrow> nat (sint len) \<le> length (contents st2 IDPipeA)" by auto
  from assms(2) have "length (take (nat (sint len)) (contents st1 IDPipeB))
      = length (take (nat (sint len)) (contents st2 IDPipeB))" by simp
  then have b: "nat (sint len) \<le> length (contents st1 IDPipeB)
      \<longleftrightarrow> nat (sint len) \<le> length (contents st2 IDPipeB)" by auto
  show ?thesis
    by (simp add: kernel_output_eq a b assms)
qed

theorem kernel_output_deterministic_witness:
  "kernel_output 2
       \<lparr>contents = (\<lambda>p. if p = IDPipeA then [1, 2, 3] else if p = IDPipeB then [10, 20] else [7]),
        trace = []\<rparr>
   = kernel_output 2
       \<lparr>contents = (\<lambda>p. if p = IDPipeA then [1, 2] else if p = IDPipeB then [10, 20, 30] else []),
        trace = [Pipe_write IDPipeC 9]\<rparr>"
  using kernel_output_deterministic [of 2
      "\<lparr>contents = (\<lambda>p. if p = IDPipeA then [1, 2, 3] else if p = IDPipeB then [10, 20] else [7]),
        trace = []\<rparr>"
      "\<lparr>contents = (\<lambda>p. if p = IDPipeA then [1, 2] else if p = IDPipeB then [10, 20, 30] else []),
        trace = [Pipe_write IDPipeC 9]\<rparr>"]
  by simp

text \<open>
  Claim C10. For input sequences \<open>xs\<close> and \<open>ys\<close> of the count's length, the value written
  is the sum of \<open>xs ! i + ys ! i\<close> over \<open>i < n\<close> in 32-bit arithmetic; read as an
  unsigned number it is the sum of the signed values modulo \<open>2 ^ 32\<close>.
\<close>

theorem kernel_output_sum_mod_2_32:
  assumes "n = nat (sint len)"
    and "contents st IDPipeA = xs" and "contents st IDPipeB = ys"
    and "length xs = n" and "length ys = n"
  shows "kernel_output len st = Some (\<Sum>i<n. xs ! i + ys ! i)
       \<and> uint (\<Sum>i<n. xs ! i + ys ! i) = (\<Sum>i<n. sint (xs ! i) + sint (ys ! i)) mod 2 ^ 32"
  using assms
  by (simp add: kernel_output_eq sum_list_map2_nth [of xs n ys] uint_sum_pairs_sint)

theorem kernel_output_sum_mod_2_32_witness:
  "kernel_output 2
       \<lparr>contents = (\<lambda>p. if p = IDPipeA then [2147483647, 1] else if p = IDPipeB then [1, 0] else []),
        trace = []\<rparr> = Some (- 2147483647)
   \<and> uint (- 2147483647 :: int32) = (2147483647 + 1 + (1 + 0)) mod 2 ^ 32"
proof -
  have two: "{..<2 :: nat} = {0, 1}"
    by auto
  show ?thesis
    using kernel_output_sum_mod_2_32 [of 2 2
      "\<lparr>contents = (\<lambda>p. if p = IDPipeA then [2147483647, 1] else if p = IDPipeB then [1, 0] else []),
        trace = []\<rparr>" "[2147483647, 1]" "[1, 0]"]
    by (simp add: two)
qed

section \<open>The harness loop\<close>

lemma unat_nonneg:
  fixes i :: int32
  assumes "0 \<le> sint i"
  shows "unat i = nat (sint i)"
proof -
  have "sint i < 2 ^ 32"
    using sint_lt [of i] by simp
  with assms have "take_bit 32 (sint i) = sint i"
    by (intro take_bit_int_eq_self) simp_all
  then have "uint i = sint i"
    by (simp add: uint_sint)
  then show ?thesis
    by (simp add: unat_eq_nat_uint)
qed

lemma of_nat_nat_sint:
  fixes c :: int32
  assumes "0 \<le> sint c"
  shows "of_nat (nat (sint c)) = c"
proof -
  have "of_nat (unat c) = c" by simp
  then show ?thesis by (simp add: unat_nonneg [OF assms])
qed

lemma host_pipe_write_eq:
  "host_pipe_write rt p i v w =
     (case throws rt (Host_pipe_write p i) of
        Some what \<Rightarrow> Throw (Sycl_exception what) w
      | None \<Rightarrow> Normal () (w\<lparr>pipe_state := pipe_write p v (pipe_state w)\<rparr>))"
  by (simp add: host_pipe_write_def sycl_def and_then_def split: option.splits)

lemma harness_loop_stop:
  "\<not> i <s count \<Longrightarrow> harness_loop rt count i a b e w = Normal (a, b, e) w"
  by (simp add: harness_loop.simps)

lemma harness_loop_step:
  assumes "i <s count"
  shows "harness_loop rt count i a b e w =
     (case throws rt (Host_pipe_write IDPipeA i) of
        Some what \<Rightarrow> Throw (Sycl_exception what) w
      | None \<Rightarrow>
          (case throws rt (Host_pipe_write IDPipeB i) of
             Some what \<Rightarrow>
               Throw (Sycl_exception what)
                 (w\<lparr>pipe_state := pipe_write IDPipeA (a[unat i := i] ! unat i) (pipe_state w)\<rparr>)
           | None \<Rightarrow>
               harness_loop rt count (i + 1) (a[unat i := i]) (b[unat i := count - i])
                 (e + (a[unat i := i] ! unat i + b[unat i := count - i] ! unat i))
                 (w\<lparr>pipe_state :=
                      pipe_write IDPipeB (b[unat i := count - i] ! unat i)
                        (pipe_write IDPipeA (a[unat i := i] ! unat i) (pipe_state w))\<rparr>)))"
  using assms
  by (subst harness_loop.simps)
     (simp add: host_pipe_write_eq and_then_def Let_def split: option.splits)

lemma harness_loop_quiet:
  assumes "k = nat (sint count - sint i)" and "0 \<le> sint i"
    and "length a = nat (sint count)" and "length b = nat (sint count)"
    and "\<forall>j. i \<le>s j \<and> j <s count \<longrightarrow>
           throws rt (Host_pipe_write IDPipeA j) = None \<and> throws rt (Host_pipe_write IDPipeB j) = None"
  shows "\<exists>w'. harness_loop rt count i a b e w =
            Normal (take (unat i) a @ map of_nat [unat i..<nat (sint count)],
                    take (unat i) b @ map (\<lambda>j. count - of_nat j) [unat i..<nat (sint count)],
                    e + of_nat k * count) w'
         \<and> cout w' = cout w \<and> cerr w' = cerr w
         \<and> contents (pipe_state w') IDPipeA
             = contents (pipe_state w) IDPipeA @ map of_nat [unat i..<nat (sint count)]
         \<and> contents (pipe_state w') IDPipeB
             = contents (pipe_state w) IDPipeB @ map (\<lambda>j. count - of_nat j) [unat i..<nat (sint count)]
         \<and> contents (pipe_state w') IDPipeC = contents (pipe_state w) IDPipeC
         \<and> trace (pipe_state w')
             = trace (pipe_state w)
               @ paired_writes (map of_nat [unat i..<nat (sint count)])
                               (map (\<lambda>j. count - of_nat j) [unat i..<nat (sint count)])"
  using assms
proof (induction k arbitrary: i a b e w)
  case 0
  then have stop: "\<not> i <s count" by (simp add: word_sless_alt)
  then have "nat (sint count) \<le> unat i"
    using 0 by (simp add: word_sless_alt unat_nonneg)
  then show ?case
    using 0 by (simp add: harness_loop_stop [OF stop])
next
  case (Suc k)
  let ?n = "nat (sint count)"
  let ?m = "unat i"
  from Suc.prems(1) have lt: "i <s count" by (simp add: word_sless_alt)
  have succ: "sint (i + 1) = sint i + 1" by (rule sint_succ_below [OF lt])
  have m: "?m = nat (sint i)" by (rule unat_nonneg [OF Suc.prems(2)])
  have nonneg': "0 \<le> sint (i + 1)" using Suc.prems(2) succ by simp
  have m': "unat (i + 1) = Suc ?m"
    using unat_nonneg [OF nonneg'] succ m Suc.prems(2) by simp
  have mn: "?m < ?n" using lt Suc.prems(2) m by (simp add: word_sless_alt)
  have k: "k = nat (sint count - sint (i + 1))" using Suc.prems(1) succ by simp
  have ii: "i \<le>s i" by simp
  from Suc.prems(5) ii lt have quiet:
    "throws rt (Host_pipe_write IDPipeA i) = None" "throws rt (Host_pipe_write IDPipeB i) = None"
    by blast+
  have quiet': "\<forall>j. i + 1 \<le>s j \<and> j <s count \<longrightarrow>
           throws rt (Host_pipe_write IDPipeA j) = None \<and> throws rt (Host_pipe_write IDPipeB j) = None"
    using Suc.prems(5) succ by (simp add: word_sle_eq)
  define a1 where "a1 = a[?m := i]"
  define b1 where "b1 = b[?m := count - i]"
  define w2 where "w2 = w\<lparr>pipe_state := pipe_write IDPipeB (count - i) (pipe_write IDPipeA i (pipe_state w))\<rparr>"
  have nth: "a1 ! ?m = i" "b1 ! ?m = count - i"
    using mn Suc.prems(3,4) by (simp_all add: a1_def b1_def)
  have len1: "length a1 = ?n" "length b1 = ?n"
    using Suc.prems(3,4) by (simp_all add: a1_def b1_def)
  have step: "harness_loop rt count i a b e w = harness_loop rt count (i + 1) a1 b1 (e + count) w2"
    using nth by (simp add: harness_loop_step [OF lt] quiet a1_def b1_def w2_def)
  have ta: "take (Suc ?m) a1 = take ?m a @ [i]"
    using mn len1 nth by (simp add: take_Suc_conv_app_nth a1_def)
  have tb: "take (Suc ?m) b1 = take ?m b @ [count - i]"
    using mn len1 nth by (simp add: take_Suc_conv_app_nth b1_def)
  have upt: "[?m..<?n] = ?m # [Suc ?m..<?n]"
    using mn by (rule upt_conv_Cons)
  have im: "of_nat ?m = i" by simp
  from Suc.IH [OF k nonneg' len1 quiet', of "e + count" w2] obtain w' where
    "harness_loop rt count (i + 1) a1 b1 (e + count) w2 =
            Normal (take (Suc ?m) a1 @ map of_nat [Suc ?m..<?n],
                    take (Suc ?m) b1 @ map (\<lambda>j. count - of_nat j) [Suc ?m..<?n],
                    e + count + of_nat k * count) w'"
    "cout w' = cout w2" "cerr w' = cerr w2"
    "contents (pipe_state w') IDPipeA = contents (pipe_state w2) IDPipeA @ map of_nat [Suc ?m..<?n]"
    "contents (pipe_state w') IDPipeB = contents (pipe_state w2) IDPipeB @ map (\<lambda>j. count - of_nat j) [Suc ?m..<?n]"
    "contents (pipe_state w') IDPipeC = contents (pipe_state w2) IDPipeC"
    "trace (pipe_state w') = trace (pipe_state w2)
               @ paired_writes (map of_nat [Suc ?m..<?n]) (map (\<lambda>j. count - of_nat j) [Suc ?m..<?n])"
    unfolding m' by blast
  then show ?case
    unfolding step upt by (simp add: ta tb w2_def algebra_simps)
qed


lemma sless_succ_cases:
  fixes i j :: int32
  assumes "i <s count" and "i \<le>s j"
  shows "j = i \<or> i + 1 \<le>s j"
proof (cases "j = i")
  case True
  then show ?thesis by simp
next
  case False
  with assms(2) have "i <s j" by (simp add: word_sless_eq)
  then have "sint i + 1 \<le> sint j" by (simp add: word_sless_alt)
  then show ?thesis by (simp add: word_sle_eq sint_succ_below [OF assms(1)])
qed

lemma harness_loop_result:
  assumes "k = nat (sint count - sint i)"
  shows "case harness_loop rt count i a b e w of
           Normal r w' \<Rightarrow>
             (\<forall>j. i \<le>s j \<and> j <s count \<longrightarrow>
                throws rt (Host_pipe_write IDPipeA j) = None
              \<and> throws rt (Host_pipe_write IDPipeB j) = None)
         | Throw ex w' \<Rightarrow>
             cout w' = cout w \<and> cerr w' = cerr w
           \<and> (\<exists>evs. trace (pipe_state w') = trace (pipe_state w) @ evs
                   \<and> (\<forall>p. reads_of p evs = []) \<and> writes_of IDPipeC evs = [])
         | Hang w' \<Rightarrow> False"
  using assms
proof (induction k arbitrary: i a b e w)
  case 0
  then have stop: "\<not> i <s count" by (simp add: word_sless_alt)
  then have "\<forall>j. \<not> (i \<le>s j \<and> j <s count)"
    by (auto simp: word_sless_alt word_sle_eq)
  then show ?case by (auto simp: harness_loop_stop [OF stop])
next
  case (Suc k)
  from Suc.prems have lt: "i <s count" by (simp add: word_sless_alt)
  have k: "k = nat (sint count - sint (i + 1))"
    using Suc.prems sint_succ_below [OF lt] by simp
  show ?case
  proof (cases "throws rt (Host_pipe_write IDPipeA i)")
    case (Some what)
    then show ?thesis by (simp add: harness_loop_step [OF lt])
  next
    case A: None
    show ?thesis
    proof (cases "throws rt (Host_pipe_write IDPipeB i)")
      case (Some what)
      have "\<forall>p. reads_of p [Pipe_write IDPipeA (a[unat i := i] ! unat i)] = []"
        by simp
      then show ?thesis
        using A Some by (simp add: harness_loop_step [OF lt])
    next
      case B: None
      define a1 where "a1 = a[unat i := i]"
      define b1 where "b1 = b[unat i := count - i]"
      define e1 where "e1 = e + (a1 ! unat i + b1 ! unat i)"
      define w2 where "w2 = w\<lparr>pipe_state :=
          pipe_write IDPipeB (b1 ! unat i) (pipe_write IDPipeA (a1 ! unat i) (pipe_state w))\<rparr>"
      have step: "harness_loop rt count i a b e w = harness_loop rt count (i + 1) a1 b1 e1 w2"
        using A B by (simp add: harness_loop_step [OF lt] a1_def b1_def e1_def w2_def)
      have w2: "cout w2 = cout w" "cerr w2 = cerr w"
        "trace (pipe_state w2) = trace (pipe_state w)
           @ [Pipe_write IDPipeA (a1 ! unat i), Pipe_write IDPipeB (b1 ! unat i)]"
        by (simp_all add: w2_def)
      note IH = Suc.IH [where i = "i + 1" and a = a1 and b = b1 and e = e1 and w = w2, OF k]
      show ?thesis
      proof (cases "harness_loop rt count (i + 1) a1 b1 e1 w2")
        case (Normal r w')
        with IH have q: "\<forall>j. i + 1 \<le>s j \<and> j <s count \<longrightarrow>
                throws rt (Host_pipe_write IDPipeA j) = None
              \<and> throws rt (Host_pipe_write IDPipeB j) = None" by simp
        have "\<forall>j. i \<le>s j \<and> j <s count \<longrightarrow>
                throws rt (Host_pipe_write IDPipeA j) = None
              \<and> throws rt (Host_pipe_write IDPipeB j) = None"
          using q A B sless_succ_cases [OF lt] by blast
        then show ?thesis by (simp add: step Normal)
      next
        case (Throw ex w')
        with IH obtain evs where
          "cout w' = cout w2" "cerr w' = cerr w2"
          "trace (pipe_state w') = trace (pipe_state w2) @ evs"
          "\<forall>p. reads_of p evs = []" "writes_of IDPipeC evs = []"
          by auto
        then have "trace (pipe_state w') = trace (pipe_state w)
              @ (Pipe_write IDPipeA (a1 ! unat i) # Pipe_write IDPipeB (b1 ! unat i) # evs)
            \<and> (\<forall>p. reads_of p (Pipe_write IDPipeA (a1 ! unat i) # Pipe_write IDPipeB (b1 ! unat i) # evs) = [])
            \<and> writes_of IDPipeC (Pipe_write IDPipeA (a1 ! unat i) # Pipe_write IDPipeB (b1 ! unat i) # evs) = []"
          by (simp add: w2)
        then have "\<exists>evs. trace (pipe_state w') = trace (pipe_state w) @ evs
                   \<and> (\<forall>p. reads_of p evs = []) \<and> writes_of IDPipeC evs = []"
          by blast
        then show ?thesis
          using \<open>cout w' = cout w2\<close> \<open>cerr w' = cerr w2\<close> by (simp add: step Throw w2)
      next
        case (Hang w')
        with IH show ?thesis by simp
      qed
    qed
  qed
qed

section \<open>Runs of the host program\<close>

lemma pipe_state_print_cout [simp]: "pipe_state (print_cout items w) = pipe_state w"
  and cerr_print_cout [simp]: "cerr (print_cout items w) = cerr w"
  and cout_print_cout [simp]: "cout (print_cout items w) = cout w @ items"
  by (simp_all add: print_cout_def)

lemma print_cout_print_cout [simp]:
  "print_cout ys (print_cout xs w) = print_cout (xs @ ys) w"
  by (simp add: print_cout_def)

lemma pipe_read_Some:
  assumes "pipe_read p st = Some (v, st')"
  shows "contents st p = v # contents st' p"
    and "trace st' = trace st @ [Pipe_read p v]"
    and "q \<noteq> p \<Longrightarrow> contents st' q = contents st q"
  using assms by (auto simp: pipe_read_def split: list.splits)

lemma main_try_Normal:
  assumes "main_try rt count w0 = Normal (code, calc, exp) w"
  shows "throws rt Queue_ctor = None \<and> throws rt Get_device = None \<and> throws rt Get_info = None
       \<and> throws rt Single_task = None \<and> throws rt Event_wait = None
       \<and> throws rt (Host_pipe_read IDPipeC) = None
       \<and> (\<exists>a' b' w1 st.
             harness_loop rt count 0 (new_int_array count) (new_int_array count) 0
                 (print_cout [Str ''Running on device: '', Str (device_name rt), Endl] w0)
               = Normal (a', b', exp) w1
           \<and> run_task rt (SimpleVAddKernel count) (pipe_state w1) = Some st
           \<and> pipe_read IDPipeC st = Some (calc, pipe_state w)
           \<and> cerr w = cerr w1
           \<and> cout w = cout w1 @ [Str ''Add two vectors of size '', Num count, Endl]
               @ (if calc \<noteq> exp
                  then [Str ''result '', Num calc, Str '', expected ('', Num exp, Str '')'', Endl]
                  else [])
               @ [Str (if calc = exp then ''PASSED'' else ''FAILED''), Endl])
       \<and> code = (if calc = exp then EXIT_SUCCESS else EXIT_FAILURE)"
  using assms
  by (auto simp: main_try_def and_then_def sycl_def single_task_def host_pipe_read_def Let_def
           split: option.splits res.splits prod.splits if_splits)


lemma length_inputs [simp]:
  "length (input_a count) = nat (sint count)" "length (input_b count) = nat (sint count)"
  by (simp_all add: input_a_def input_b_def)

lemma sum_list_inputs:
  "sum_list (map2 (+) (input_a count) (input_b count)) = of_nat (nat (sint count)) * count"
proof -
  have "sum_list (map2 (+) (input_a count) (input_b count))
      = (\<Sum>i<nat (sint count). input_a count ! i + input_b count ! i)"
    by (rule sum_list_map2_nth) simp_all
  also have "\<dots> = (\<Sum>i<nat (sint count). count)"
    by (intro sum.cong) (simp_all add: input_a_def input_b_def)
  finally show ?thesis by simp
qed

lemma harness_loop_start_quiet:
  assumes "\<forall>j. 0 \<le>s j \<and> j <s count \<longrightarrow>
           throws rt (Host_pipe_write IDPipeA j) = None \<and> throws rt (Host_pipe_write IDPipeB j) = None"
  shows "\<exists>w'. harness_loop rt count 0 (new_int_array count) (new_int_array count) e w =
            Normal (input_a count, input_b count, e + of_nat (nat (sint count)) * count) w'
         \<and> cout w' = cout w \<and> cerr w' = cerr w
         \<and> contents (pipe_state w') IDPipeA = contents (pipe_state w) IDPipeA @ input_a count
         \<and> contents (pipe_state w') IDPipeB = contents (pipe_state w) IDPipeB @ input_b count
         \<and> contents (pipe_state w') IDPipeC = contents (pipe_state w) IDPipeC
         \<and> trace (pipe_state w')
             = trace (pipe_state w) @ paired_writes (input_a count) (input_b count)"
proof -
  have k: "nat (sint count) = nat (sint count - sint (0 :: int32))" by simp
  have z: "0 \<le> sint (0 :: int32)" by simp
  have len: "length (new_int_array count) = nat (sint count)"
    by (simp add: new_int_array_def)
  from harness_loop_quiet [OF k z len len assms, where e = e and w = w] show ?thesis
    by (simp add: input_a_def input_b_def)
qed

lemma harness_loop_start_Normal:
  assumes "harness_loop rt count 0 (new_int_array count) (new_int_array count) e w
             = Normal (a', b', e') w'"
  shows "(\<forall>j. 0 \<le>s j \<and> j <s count \<longrightarrow>
            throws rt (Host_pipe_write IDPipeA j) = None \<and> throws rt (Host_pipe_write IDPipeB j) = None)"
    and "a' = input_a count" and "b' = input_b count"
    and "e' = e + of_nat (nat (sint count)) * count"
    and "cout w' = cout w" and "cerr w' = cerr w"
    and "contents (pipe_state w') IDPipeA = contents (pipe_state w) IDPipeA @ input_a count"
    and "contents (pipe_state w') IDPipeB = contents (pipe_state w) IDPipeB @ input_b count"
    and "contents (pipe_state w') IDPipeC = contents (pipe_state w) IDPipeC"
    and "trace (pipe_state w') = trace (pipe_state w) @ paired_writes (input_a count) (input_b count)"
proof -
  have k: "nat (sint count) = nat (sint count - sint (0 :: int32))" by simp
  from harness_loop_result [OF k, where rt = rt and a = "new_int_array count" and b = "new_int_array count" and e = e and w = w] assms
  show q: "\<forall>j. 0 \<le>s j \<and> j <s count \<longrightarrow>
            throws rt (Host_pipe_write IDPipeA j) = None \<and> throws rt (Host_pipe_write IDPipeB j) = None"
    by simp
  from harness_loop_start_quiet [OF q, where e = e and w = w] assms
  show "a' = input_a count" and "b' = input_b count"
    and "e' = e + of_nat (nat (sint count)) * count"
    and "cout w' = cout w" and "cerr w' = cerr w"
    and "contents (pipe_state w') IDPipeA = contents (pipe_state w) IDPipeA @ input_a count"
    and "contents (pipe_state w') IDPipeB = contents (pipe_state w) IDPipeB @ input_b count"
    and "contents (pipe_state w') IDPipeC = contents (pipe_state w) IDPipeC"
    and "trace (pipe_state w') = trace (pipe_state w) @ paired_writes (input_a count) (input_b count)"
    by auto
qed

lemma harness_loop_no_Hang:
  "harness_loop rt count 0 a b e w \<noteq> Hang w'"
proof -
  have k: "nat (sint count) = nat (sint count - sint (0 :: int32))" by simp
  from harness_loop_result [OF k, where rt = rt and a = a and b = b and e = e and w = w] show ?thesis
    by (auto split: res.splits)
qed

lemma harness_loop_start_Throw:
  assumes "harness_loop rt count 0 a b e w = Throw ex w'"
  shows "cout w' = cout w" and "cerr w' = cerr w"
    and "\<exists>evs. trace (pipe_state w') = trace (pipe_state w) @ evs
              \<and> (\<forall>p. reads_of p evs = []) \<and> writes_of IDPipeC evs = []"
proof -
  have k: "nat (sint count) = nat (sint count - sint (0 :: int32))" by simp
  from harness_loop_result [OF k, where rt = rt and a = a and b = b and e = e and w = w] assms
  show "cout w' = cout w" and "cerr w' = cerr w"
    and "\<exists>evs. trace (pipe_state w') = trace (pipe_state w) @ evs
              \<and> (\<forall>p. reads_of p evs = []) \<and> writes_of IDPipeC evs = []"
    by simp_all
qed

text \<open>The kernel, run as written on the pipes the harness loop has filled.\<close>

lemma kernel_on_inputs:
  assumes "contents st IDPipeA = input_a count" and "contents st IDPipeB = input_b count"
    and "contents st IDPipeC = []"
  shows "\<exists>st'. SimpleVAddKernel count st = Some st'
          \<and> contents st' IDPipeA = [] \<and> contents st' IDPipeB = []
          \<and> contents st' IDPipeC = [of_nat (nat (sint count)) * count]
          \<and> trace st' = trace st @ paired_reads (input_a count) (input_b count)
                @ [Pipe_write IDPipeC (of_nat (nat (sint count)) * count)]"
proof -
  have a: "nat (sint count) \<le> length (contents st IDPipeA)"
    and b: "nat (sint count) \<le> length (contents st IDPipeB)"
    using assms by simp_all
  from SimpleVAddKernel_run [OF refl a b] show ?thesis
    by (simp add: assms sum_list_inputs)
qed


lemma main_try_Hang:
  assumes "main_try rt count w0 = Hang w"
  shows "harness_loop rt count 0 (new_int_array count) (new_int_array count) 0
             (print_cout [Str ''Running on device: '', Str (device_name rt), Endl] w0) = Hang w
       \<or> (\<exists>a' b' e' w1.
             harness_loop rt count 0 (new_int_array count) (new_int_array count) 0
                 (print_cout [Str ''Running on device: '', Str (device_name rt), Endl] w0)
               = Normal (a', b', e') w1
           \<and> (run_task rt (SimpleVAddKernel count) (pipe_state w1) = None
              \<or> (\<exists>st. run_task rt (SimpleVAddKernel count) (pipe_state w1) = Some st
                     \<and> pipe_read IDPipeC st = None)))"
  using assms
  by (auto simp: main_try_def and_then_def sycl_def single_task_def host_pipe_read_def Let_def
           split: option.splits res.splits prod.splits if_splits)

lemma main_try_Throw:
  assumes "main_try rt count w0 = Throw ex w"
  shows "pipe_state w = pipe_state w0 \<and> cerr w = cerr w0
       \<or> harness_loop rt count 0 (new_int_array count) (new_int_array count) 0
             (print_cout [Str ''Running on device: '', Str (device_name rt), Endl] w0) = Throw ex w
       \<or> (\<exists>a' b' e' w1.
             harness_loop rt count 0 (new_int_array count) (new_int_array count) 0
                 (print_cout [Str ''Running on device: '', Str (device_name rt), Endl] w0)
               = Normal (a', b', e') w1
           \<and> cerr w = cerr w1
           \<and> (pipe_state w = pipe_state w1
              \<or> run_task rt (SimpleVAddKernel count) (pipe_state w1) = Some (pipe_state w)))"
  using assms
  by (auto simp: main_try_def and_then_def sycl_def single_task_def host_pipe_read_def Let_def
           split: option.splits res.splits prod.splits if_splits)


lemma writes_of_paired_writes:
  assumes "length xs = length ys"
  shows "writes_of IDPipeA (paired_writes xs ys) = xs"
    and "writes_of IDPipeB (paired_writes xs ys) = ys"
    and "writes_of IDPipeC (paired_writes xs ys) = []"
    and "reads_of p (paired_writes xs ys) = []"
  using assms by (induction xs ys rule: list_induct2; simp)+

lemma start_simps [simp]:
  "contents (pipe_state start) p = []" "trace (pipe_state start) = []"
  "cout start = []" "cerr start = []"
  by (simp_all add: start_def)


lemma main_try_Normal_start:
  assumes "main_try rt count start = Normal (code, calc, exp) w" and "0 \<le> sint count"
  shows "exp = count * count"
    and "code = (if calc = exp then EXIT_SUCCESS else EXIT_FAILURE)"
    and "\<exists>evs. trace (pipe_state w) = evs @ [Pipe_read IDPipeC calc]"
    and "cerr w = []"
    and "cout w = [Str ''Running on device: '', Str (device_name rt), Endl,
                   Str ''Add two vectors of size '', Num count, Endl]
               @ (if calc \<noteq> exp
                  then [Str ''result '', Num calc, Str '', expected ('', Num exp, Str '')'', Endl]
                  else [])
               @ [Str (if calc = exp then ''PASSED'' else ''FAILED''), Endl]"
proof -
  note N = main_try_Normal [OF assms(1)]
  from N obtain a' b' w1 st where
    loop: "harness_loop rt count 0 (new_int_array count) (new_int_array count) 0
             (print_cout [Str ''Running on device: '', Str (device_name rt), Endl] start)
           = Normal (a', b', exp) w1"
    and rd: "pipe_read IDPipeC st = Some (calc, pipe_state w)"
    and err: "cerr w = cerr w1"
    and out: "cout w = cout w1 @ [Str ''Add two vectors of size '', Num count, Endl]
               @ (if calc \<noteq> exp
                  then [Str ''result '', Num calc, Str '', expected ('', Num exp, Str '')'', Endl]
                  else [])
               @ [Str (if calc = exp then ''PASSED'' else ''FAILED''), Endl]"
    by blast
  note L = harness_loop_start_Normal [OF loop]
  from L(4) show "exp = count * count"
    by (simp add: of_nat_nat_sint [OF assms(2)])
  from N show "code = (if calc = exp then EXIT_SUCCESS else EXIT_FAILURE)"
    by simp
  from pipe_read_Some(2) [OF rd] show "\<exists>evs. trace (pipe_state w) = evs @ [Pipe_read IDPipeC calc]"
    by blast
  from err L(6) show "cerr w = []"
    by simp
  from out L(5) show "cout w = [Str ''Running on device: '', Str (device_name rt), Endl,
                   Str ''Add two vectors of size '', Num count, Endl]
               @ (if calc \<noteq> exp
                  then [Str ''result '', Num calc, Str '', expected ('', Num exp, Str '')'', Endl]
                  else [])
               @ [Str (if calc = exp then ''PASSED'' else ''FAILED''), Endl]"
    by simp
qed

text \<open>The whole trace of a run to completion on a device that executes the kernel as written.\<close>

lemma main_try_faithful_Normal:
  assumes "run_task rt = (\<lambda>k. k)" and "0 \<le> sint count"
    and "main_try rt count start = Normal (code, calc, exp) w"
  shows "code = EXIT_SUCCESS" and "calc = count * count" and "exp = count * count"
    and "trace (pipe_state w) =
           paired_writes (input_a count) (input_b count)
           @ paired_reads (input_a count) (input_b count)
           @ [Pipe_write IDPipeC (count * count), Pipe_read IDPipeC (count * count)]"
    and "contents (pipe_state w) IDPipeC = []"
proof -
  note N = main_try_Normal [OF assms(3)]
  from N obtain a' b' w1 st where
    loop: "harness_loop rt count 0 (new_int_array count) (new_int_array count) 0
             (print_cout [Str ''Running on device: '', Str (device_name rt), Endl] start)
           = Normal (a', b', exp) w1"
    and run: "run_task rt (SimpleVAddKernel count) (pipe_state w1) = Some st"
    and rd: "pipe_read IDPipeC st = Some (calc, pipe_state w)"
    by blast
  note L = harness_loop_start_Normal [OF loop]
  have A: "contents (pipe_state w1) IDPipeA = input_a count"
    and B: "contents (pipe_state w1) IDPipeB = input_b count"
    and C: "contents (pipe_state w1) IDPipeC = []"
    and T: "trace (pipe_state w1) = paired_writes (input_a count) (input_b count)"
    using L(7-10) by simp_all
  from kernel_on_inputs [OF A B C] run assms(1,2) have
    stC: "contents st IDPipeC = [count * count]"
    and stT: "trace st = paired_writes (input_a count) (input_b count)
               @ paired_reads (input_a count) (input_b count)
               @ [Pipe_write IDPipeC (count * count)]"
    by (auto simp: T of_nat_nat_sint)
  from pipe_read_Some(1) [OF rd] stC show calc: "calc = count * count"
    and "contents (pipe_state w) IDPipeC = []"
    by simp_all
  from main_try_Normal_start(1) [OF assms(3,2)] show exp: "exp = count * count" .
  from N calc exp show "code = EXIT_SUCCESS" by simp
  from pipe_read_Some(2) [OF rd] stT calc show "trace (pipe_state w) =
           paired_writes (input_a count) (input_b count)
           @ paired_reads (input_a count) (input_b count)
           @ [Pipe_write IDPipeC (count * count), Pipe_read IDPipeC (count * count)]"
    by simp
qed

lemma main_try_faithful_no_Hang:
  assumes "run_task rt = (\<lambda>k. k)"
  shows "main_try rt count start \<noteq> Hang w"
proof
  assume "main_try rt count start = Hang w"
  from main_try_Hang [OF this] harness_loop_no_Hang obtain a' b' e' w1 where
    loop: "harness_loop rt count 0 (new_int_array count) (new_int_array count) 0
             (print_cout [Str ''Running on device: '', Str (device_name rt), Endl] start)
           = Normal (a', b', e') w1"
    and bad: "run_task rt (SimpleVAddKernel count) (pipe_state w1) = None
              \<or> (\<exists>st. run_task rt (SimpleVAddKernel count) (pipe_state w1) = Some st
                     \<and> pipe_read IDPipeC st = None)"
    by blast
  note L = harness_loop_start_Normal [OF loop]
  have A: "contents (pipe_state w1) IDPipeA = input_a count"
    and B: "contents (pipe_state w1) IDPipeB = input_b count"
    and C: "contents (pipe_state w1) IDPipeC = []"
    using L(7-9) by simp_all
  from kernel_on_inputs [OF A B C] obtain st' where
    "SimpleVAddKernel count (pipe_state w1) = Some st'"
    "contents st' IDPipeC = [of_nat (nat (sint count)) * count]"
    by blast
  with bad assms show False
    by (auto simp: pipe_read_def)
qed

lemma main_try_faithful_Throw:
  assumes "run_task rt = (\<lambda>k. k)" and "0 \<le> sint count"
    and "main_try rt count start = Throw ex w"
  shows "cerr w = []"
    and "(\<forall>p. reads_of p (trace (pipe_state w)) = []) \<and> writes_of IDPipeC (trace (pipe_state w)) = []
       \<or> trace (pipe_state w) =
           paired_writes (input_a count) (input_b count)
           @ paired_reads (input_a count) (input_b count)
           @ [Pipe_write IDPipeC (count * count)]"
proof -
  let ?w0 = "print_cout [Str ''Running on device: '', Str (device_name rt), Endl] start"
  let ?loop = "harness_loop rt count 0 (new_int_array count) (new_int_array count) 0 ?w0"
  let ?early = "(\<forall>p. reads_of p (trace (pipe_state w)) = []) \<and> writes_of IDPipeC (trace (pipe_state w)) = []"
  let ?late = "trace (pipe_state w) =
           paired_writes (input_a count) (input_b count)
           @ paired_reads (input_a count) (input_b count)
           @ [Pipe_write IDPipeC (count * count)]"
  from main_try_Throw [OF assms(3)] consider
      (first) "pipe_state w = pipe_state start" "cerr w = cerr start"
    | (loop) "?loop = Throw ex w"
    | (after) a' b' e' w1 where "?loop = Normal (a', b', e') w1" "cerr w = cerr w1"
        "pipe_state w = pipe_state w1
         \<or> run_task rt (SimpleVAddKernel count) (pipe_state w1) = Some (pipe_state w)"
    by blast
  then have "cerr w = [] \<and> (?early \<or> ?late)"
  proof cases
    case first
    then show ?thesis by simp
  next
    case loop
    from harness_loop_start_Throw [OF loop] show ?thesis by auto
  next
    case after
    note L = harness_loop_start_Normal [OF after(1)]
    have A: "contents (pipe_state w1) IDPipeA = input_a count"
      and B: "contents (pipe_state w1) IDPipeB = input_b count"
      and C: "contents (pipe_state w1) IDPipeC = []"
      and T: "trace (pipe_state w1) = paired_writes (input_a count) (input_b count)"
      using L(7-10) by simp_all
    have err: "cerr w = []" using after(2) L(6) by simp
    from after(3) show ?thesis
    proof
      assume "pipe_state w = pipe_state w1"
      then have "?early" by (simp add: T writes_of_paired_writes)
      with err show ?thesis by simp
    next
      assume "run_task rt (SimpleVAddKernel count) (pipe_state w1) = Some (pipe_state w)"
      with kernel_on_inputs [OF A B C] assms(1,2) have "?late"
        by (auto simp: T of_nat_nat_sint)
      with err show ?thesis by simp
    qed
  qed
  then show "cerr w = []" and "?early \<or> ?late" by simp_all
qed

lemma kVectorSize_facts:
  "0 \<le> sint kVectorSize" "kVectorSize * kVectorSize = 65536" "nat (sint kVectorSize) = 256"
  by (simp_all add: kVectorSize_def)

lemma pipe_state_print_cerr [simp]: "pipe_state (print_cerr items w) = pipe_state w"
  and cout_print_cerr [simp]: "cout (print_cerr items w) = cout w"
  and cerr_print_cerr [simp]: "cerr (print_cerr items w) = cerr w @ items"
  by (simp_all add: print_cerr_def)

lemma sint_square:
  fixes count :: int32
  assumes "0 \<le> sint count" and "sint count \<le> 46340"
  shows "sint (count * count) = sint count * sint count"
proof -
  have "sint count * sint count \<le> 46340 * 46340"
    using assms by (intro mult_mono) simp_all
  then have "sint count * sint count < 2 ^ 31" by simp
  moreover have "- (2 ^ 31) \<le> sint count * sint count"
    using assms(1) by (simp add: order_trans [of _ 0])
  ultimately have "signed_take_bit 31 (sint count * sint count) = sint count * sint count"
    by (intro signed_take_bit_int_eq_self) simp_all
  then show ?thesis by (simp add: sint_word_ariths)
qed

text \<open>
  A run in which no call throws, on any device that answers the submitted kernel by
  leaving a value \<open>v\<close> at the head of \<open>OutputPipeC\<close>.
\<close>

lemma main_try_quiet:
  assumes quiet: "\<forall>c. throws rt c = None" and nonneg: "0 \<le> sint count"
    and dev: "\<And>st. contents st IDPipeA = input_a count \<Longrightarrow> contents st IDPipeB = input_b count
               \<Longrightarrow> contents st IDPipeC = []
               \<Longrightarrow> \<exists>st'. run_task rt (SimpleVAddKernel count) st = Some st'
                        \<and> contents st' IDPipeC = v # vs"
  shows "\<exists>w. main_try rt count start =
            Normal (if v = count * count then EXIT_SUCCESS else EXIT_FAILURE, v, count * count) w"
proof -
  let ?w0 = "print_cout [Str ''Running on device: '', Str (device_name rt), Endl] start"
  from quiet have q: "\<forall>j. 0 \<le>s j \<and> j <s count \<longrightarrow>
      throws rt (Host_pipe_write IDPipeA j) = None \<and> throws rt (Host_pipe_write IDPipeB j) = None"
    by simp
  from harness_loop_start_quiet [OF q, where e = 0 and w = ?w0] obtain w1 where
    loop: "harness_loop rt count 0 (new_int_array count) (new_int_array count) 0 ?w0
            = Normal (input_a count, input_b count, count * count) w1"
    and A: "contents (pipe_state w1) IDPipeA = input_a count"
    and B: "contents (pipe_state w1) IDPipeB = input_b count"
    and C: "contents (pipe_state w1) IDPipeC = []"
    by (auto simp: of_nat_nat_sint [OF nonneg])
  from dev [OF A B C] obtain st' where
    run: "run_task rt (SimpleVAddKernel count) (pipe_state w1) = Some st'"
    and st': "contents st' IDPipeC = v # vs"
    by blast
  show ?thesis
    by (simp add: main_try_def sycl_def and_then_def single_task_def host_pipe_read_def
          pipe_read_def Let_def quiet loop run st')
qed


lemma faithful_runtime_device:
  assumes "contents st IDPipeA = input_a kVectorSize" and "contents st IDPipeB = input_b kVectorSize"
    and "contents st IDPipeC = []"
  shows "\<exists>st'. run_task faithful_runtime (SimpleVAddKernel kVectorSize) st = Some st'
               \<and> contents st' IDPipeC = 65536 # []"
proof -
  from kernel_on_inputs [OF assms] obtain st' where
    "SimpleVAddKernel kVectorSize st = Some st'"
    "contents st' IDPipeC = [of_nat (nat (sint kVectorSize)) * kVectorSize]"
    by blast
  moreover have "of_nat (nat (sint kVectorSize)) * kVectorSize = 65536"
    by (simp add: kVectorSize_def)
  ultimately show ?thesis
    by (simp add: faithful_runtime_def)
qed

lemma main_try_faithful_runtime:
  "\<exists>w. main_try faithful_runtime kVectorSize start = Normal (EXIT_SUCCESS, 65536, 65536) w"
proof -
  have quiet: "\<forall>c. throws faithful_runtime c = None"
    by (simp add: faithful_runtime_def)
  from main_try_quiet [where rt = faithful_runtime and count = kVectorSize and v = 65536 and vs = "[]",
      OF quiet kVectorSize_facts(1) faithful_runtime_device]
  have "\<exists>w. main_try faithful_runtime kVectorSize start =
            Normal (if 65536 = kVectorSize * kVectorSize then EXIT_SUCCESS else EXIT_FAILURE,
                    65536, kVectorSize * kVectorSize) w"
    by blast
  then show ?thesis
    by (simp only: kVectorSize_facts(2) if_True refl)
qed

lemma wrong_result_runtime_device:
  assumes "contents st IDPipeA = input_a kVectorSize" and "contents st IDPipeB = input_b kVectorSize"
    and "contents st IDPipeC = []"
  shows "\<exists>st'. run_task wrong_result_runtime (SimpleVAddKernel kVectorSize) st = Some st'
               \<and> contents st' IDPipeC = 5 # []"
  using assms(3) by (simp add: wrong_result_runtime_def faithful_runtime_def)

lemma main_try_wrong_result_runtime:
  "\<exists>w. main_try wrong_result_runtime kVectorSize start = Normal (EXIT_FAILURE, 5, 65536) w"
proof -
  have quiet: "\<forall>c. throws wrong_result_runtime c = None"
    by (simp add: wrong_result_runtime_def faithful_runtime_def)
  from main_try_quiet [where rt = wrong_result_runtime and count = kVectorSize and v = 5 and vs = "[]",
      OF quiet kVectorSize_facts(1) wrong_result_runtime_device]
  have "\<exists>w. main_try wrong_result_runtime kVectorSize start =
            Normal (if 5 = kVectorSize * kVectorSize then EXIT_SUCCESS else EXIT_FAILURE,
                    5, kVectorSize * kVectorSize) w"
    by blast
  then show ?thesis
    by (simp add: kVectorSize_facts(2))
qed

section \<open>Properties of the host program\<close>

text \<open>
  Claim C1, as amended. For every count above zero and not above 46340, whenever the
  harness loop completes, the arrays it has built are \<open>a[i] = i\<close> and \<open>b[i] = count - i\<close>
  and the expected total it has computed is the square of the count; the loop does
  complete when no pipe write throws. For the count 256 the total is 65536. The bound is
  the largest count whose square fits a 32-bit \<open>int\<close>.
\<close>

theorem harness_expected_sum:
  assumes "0 <s count" and "sint count \<le> 46340"
  shows "(\<forall>a' b' e' w'.
            harness_loop rt count 0 (new_int_array count) (new_int_array count) 0 w
              = Normal (a', b', e') w'
            \<longrightarrow> a' = input_a count \<and> b' = input_b count
              \<and> sint e' = sint count * sint count)
       \<and> ((\<forall>j. 0 \<le>s j \<and> j <s count \<longrightarrow>
              throws rt (Host_pipe_write IDPipeA j) = None
            \<and> throws rt (Host_pipe_write IDPipeB j) = None)
          \<longrightarrow> (\<exists>e' w'. harness_loop rt count 0 (new_int_array count) (new_int_array count) 0 w
                      = Normal (input_a count, input_b count, e') w'
                    \<and> sint e' = sint count * sint count))
       \<and> (\<forall>i < nat (sint count).
             input_a count ! i = of_nat i \<and> input_b count ! i = count - of_nat i)"
proof -
  from assms(1) have nonneg: "0 \<le> sint count"
    by (simp add: word_sless_alt)
  have n: "of_nat (nat (sint count)) = count"
    by (rule of_nat_nat_sint [OF nonneg])
  have sq: "sint (count * count) = sint count * sint count"
    by (rule sint_square [OF nonneg assms(2)])
  have 1: "a' = input_a count \<and> b' = input_b count \<and> sint e' = sint count * sint count"
    if "harness_loop rt count 0 (new_int_array count) (new_int_array count) 0 w
          = Normal (a', b', e') w'" for a' b' e' w'
    using harness_loop_start_Normal(2-4) [OF that] by (simp add: n sq)
  have 2: "\<exists>e' w'. harness_loop rt count 0 (new_int_array count) (new_int_array count) 0 w
                      = Normal (input_a count, input_b count, e') w'
                    \<and> sint e' = sint count * sint count"
    if "\<forall>j. 0 \<le>s j \<and> j <s count \<longrightarrow>
              throws rt (Host_pipe_write IDPipeA j) = None
            \<and> throws rt (Host_pipe_write IDPipeB j) = None"
    using harness_loop_start_quiet [OF that, where e = 0 and w = w] sq by (auto simp: n)
  have 3: "\<forall>i < nat (sint count).
             input_a count ! i = of_nat i \<and> input_b count ! i = count - of_nat i"
    by (simp add: input_a_def input_b_def)
  from 1 2 3 show ?thesis by blast
qed

theorem harness_expected_sum_witness:
  "0 <s (256 :: int32) \<and> sint (256 :: int32) \<le> 46340
   \<and> (\<exists>e' w'. harness_loop faithful_runtime 256 0 (new_int_array 256) (new_int_array 256) 0 start
             = Normal (input_a 256, input_b 256, e') w'
           \<and> sint e' = 65536)"
proof -
  have pos: "0 <s (256 :: int32)"
    by (simp add: word_sless_alt)
  have bound: "sint (256 :: int32) \<le> 46340"
    by simp
  have quiet: "\<forall>j. 0 \<le>s j \<and> j <s 256 \<longrightarrow>
      throws faithful_runtime (Host_pipe_write IDPipeA j) = None
    \<and> throws faithful_runtime (Host_pipe_write IDPipeB j) = None"
    by (simp add: faithful_runtime_def)
  from harness_expected_sum [OF pos bound, of faithful_runtime start] quiet pos show ?thesis
    by simp
qed

text \<open>
  The claim as stated, for every count above zero, fails at the count 46341: the loop
  completes, and the total it has computed reads as a negative number, not as the
  square 2147488281 of the count.
\<close>

theorem expected_sum_wraps_at_46341:
  "0 <s (46341 :: int32)
   \<and> map_option sint
         (expected_sum_of
            (harness_loop faithful_runtime 46341 0 (new_int_array 46341) (new_int_array 46341)
               0 start))
       = Some (- 2147479015)
   \<and> (- 2147479015 :: int) \<noteq> 46341 * 46341"
proof -
  have pos: "0 <s (46341 :: int32)"
    by (simp add: word_sless_alt)
  have quiet: "\<forall>j. 0 \<le>s j \<and> j <s 46341 \<longrightarrow>
      throws faithful_runtime (Host_pipe_write IDPipeA j) = None
    \<and> throws faithful_runtime (Host_pipe_write IDPipeB j) = None"
    by (simp add: faithful_runtime_def)
  from harness_loop_start_quiet [OF quiet, where e = 0 and w = start] obtain w' where
    "harness_loop faithful_runtime 46341 0 (new_int_array 46341) (new_int_array 46341) 0 start
       = Normal (input_a 46341, input_b 46341, 0 + of_nat (nat (sint (46341 :: int32))) * 46341) w'"
    by blast
  then have "map_option sint
         (expected_sum_of
            (harness_loop faithful_runtime 46341 0 (new_int_array 46341) (new_int_array 46341)
               0 start))
       = Some (- 2147479015)"
    by (simp add: expected_sum_of_def)
  with pos show ?thesis by simp
qed

text \<open>
  Claim C3. On every runtime and device, \<open>main\<close> returns the exit status 0 exactly when
  the \<open>try\<close> block runs to its \<open>return\<close> with \<open>calc\<close>, the value read from
  \<open>OutputPipeC\<close>, equal to \<open>expected_sum\<close>. Whenever the block reaches its \<open>return\<close>,
  \<open>expected_sum\<close> is 65536, the read of \<open>calc\<close> is the last pipe operation of the run,
  and a mismatch gives the exit status \<open>EXIT_FAILURE\<close>, which is not 0.
\<close>

theorem exit_code_zero_iff:
  "(fst (main rt) = Exit 0
      \<longleftrightarrow> (\<exists>code calc expected_sum w.
             main_try rt kVectorSize start = Normal (code, calc, expected_sum) w
           \<and> calc = expected_sum))
   \<and> (\<forall>code calc expected_sum w.
         main_try rt kVectorSize start = Normal (code, calc, expected_sum) w
         \<longrightarrow> main rt = (Exit code, w)
           \<and> expected_sum = 65536
           \<and> (\<exists>evs. trace (pipe_state w) = evs @ [Pipe_read IDPipeC calc])
           \<and> (calc \<noteq> expected_sum \<longrightarrow> code = EXIT_FAILURE \<and> code \<noteq> 0))"
proof -
  have N: "main rt = (Exit code, w) \<and> expected_sum = 65536
           \<and> (\<exists>evs. trace (pipe_state w) = evs @ [Pipe_read IDPipeC calc])
           \<and> code = (if calc = expected_sum then 0 else 1)"
    if "main_try rt kVectorSize start = Normal (code, calc, expected_sum) w"
    for code calc expected_sum w
    using main_try_Normal_start(1-3) [OF that kVectorSize_facts(1)] that
    by (simp add: main_def kVectorSize_facts EXIT_SUCCESS_def EXIT_FAILURE_def)
  have "fst (main rt) = Exit 0
      \<longleftrightarrow> (\<exists>code calc expected_sum w.
             main_try rt kVectorSize start = Normal (code, calc, expected_sum) w
           \<and> calc = expected_sum)"
  proof (cases "main_try rt kVectorSize start")
    case (Normal r w)
    obtain code calc expected_sum where r: "r = (code, calc, expected_sum)"
      by (cases r) auto
    from N [OF Normal [unfolded r]] show ?thesis
      by (auto simp: Normal r)
  next
    case (Throw ex w)
    then show ?thesis by (cases ex) (simp add: main_def)
  next
    case (Hang w)
    then show ?thesis by (simp add: main_def)
  qed
  moreover have "\<forall>code calc expected_sum w.
         main_try rt kVectorSize start = Normal (code, calc, expected_sum) w
         \<longrightarrow> main rt = (Exit code, w)
           \<and> expected_sum = 65536
           \<and> (\<exists>evs. trace (pipe_state w) = evs @ [Pipe_read IDPipeC calc])
           \<and> (calc \<noteq> expected_sum \<longrightarrow> code = EXIT_FAILURE \<and> code \<noteq> 0)"
    using N by (auto simp: EXIT_FAILURE_def)
  ultimately show ?thesis by blast
qed

theorem exit_code_zero_iff_witness:
  "fst (main faithful_runtime) = Exit 0 \<and> fst (main wrong_result_runtime) = Exit 1"
proof -
  from main_try_faithful_runtime obtain w where
    w: "main_try faithful_runtime kVectorSize start = Normal (EXIT_SUCCESS, 65536, 65536) w"
    by blast
  from main_try_wrong_result_runtime obtain w' where
    w': "main_try wrong_result_runtime kVectorSize start = Normal (EXIT_FAILURE, 5, 65536) w'"
    by blast
  from exit_code_zero_iff [of faithful_runtime] w have "fst (main faithful_runtime) = Exit 0"
    by blast
  moreover from exit_code_zero_iff [of wrong_result_runtime] w'
  have "main wrong_result_runtime = (Exit EXIT_FAILURE, w')"
    by blast
  ultimately show ?thesis by (simp add: EXIT_FAILURE_def)
qed


lemma main_Exit:
  assumes "fst (main rt) = Exit code"
  shows "\<exists>calc expected_sum w.
           main_try rt kVectorSize start = Normal (code, calc, expected_sum) w
         \<and> main rt = (Exit code, w)"
proof (cases "main_try rt kVectorSize start")
  case (Normal r w)
  obtain c calc expected_sum where r: "r = (c, calc, expected_sum)"
    by (cases r) auto
  with assms Normal show ?thesis by (simp add: main_def)
next
  case (Throw ex w)
  with assms show ?thesis by (cases ex) (simp add: main_def)
next
  case (Hang w)
  with assms show ?thesis by (simp add: main_def)
qed

lemma main_Throw:
  assumes "main_try rt kVectorSize start = Throw ex w"
  shows "fst (main rt) = Terminate" and "pipe_state (snd (main rt)) = pipe_state w"
  using assms by (cases ex; simp add: main_def)+

text \<open>
  Claim C6. In every run that returns from \<open>main\<close>, on a device that executes the kernel
  as written, \<open>OutputPipeC\<close> is written exactly once and read exactly once: the last two
  pipe operations of the run are the kernel's write and then the host's read of the
  same value, and nothing before them touches \<open>OutputPipeC\<close>.
\<close>

theorem output_pipe_written_once_read_once:
  assumes "run_task rt = (\<lambda>k. k)" and "fst (main rt) = Exit code"
  shows "\<exists>evs. trace (pipe_state (snd (main rt)))
                = evs @ [Pipe_write IDPipeC 65536, Pipe_read IDPipeC 65536]
            \<and> writes_of IDPipeC evs = [] \<and> reads_of IDPipeC evs = []
            \<and> writes_of IDPipeC (trace (pipe_state (snd (main rt)))) = [65536]
            \<and> reads_of IDPipeC (trace (pipe_state (snd (main rt)))) = [65536]"
proof -
  from main_Exit [OF assms(2)] obtain calc expected_sum w where
    N: "main_try rt kVectorSize start = Normal (code, calc, expected_sum) w"
    and m: "main rt = (Exit code, w)"
    by blast
  let ?evs = "paired_writes (input_a kVectorSize) (input_b kVectorSize)
              @ paired_reads (input_a kVectorSize) (input_b kVectorSize)"
  have len: "length (input_a kVectorSize) = length (input_b kVectorSize)"
    by simp
  from main_try_faithful_Normal(4) [OF assms(1) kVectorSize_facts(1) N]
  have tr: "trace (pipe_state (snd (main rt)))
              = ?evs @ [Pipe_write IDPipeC 65536, Pipe_read IDPipeC 65536]"
    by (simp add: m kVectorSize_facts(2))
  have evs: "writes_of IDPipeC ?evs = []" "reads_of IDPipeC ?evs = []"
    by (simp_all add: writes_of_paired_writes [OF len] reads_of_paired_reads [OF len])
  from evs have "writes_of IDPipeC (?evs @ [Pipe_write IDPipeC 65536, Pipe_read IDPipeC 65536]) = [65536]"
    and "reads_of IDPipeC (?evs @ [Pipe_write IDPipeC 65536, Pipe_read IDPipeC 65536]) = [65536]"
    by simp_all
  with tr evs show ?thesis by metis
qed

theorem output_pipe_written_once_read_once_witness:
  "run_task faithful_runtime = (\<lambda>k. k) \<and> fst (main faithful_runtime) = Exit 0
   \<and> writes_of IDPipeC (trace (pipe_state (snd (main faithful_runtime)))) = [65536]
   \<and> reads_of IDPipeC (trace (pipe_state (snd (main faithful_runtime)))) = [65536]"
proof -
  have dev: "run_task faithful_runtime = (\<lambda>k. k)"
    by (simp add: faithful_runtime_def)
  from main_try_faithful_runtime have ex: "fst (main faithful_runtime) = Exit 0"
    by (auto simp: main_def EXIT_SUCCESS_def)
  from output_pipe_written_once_read_once [OF dev ex] dev ex show ?thesis
    by blast
qed

text \<open>
  Claim C7. In every run on a device that executes the kernel as written, either the
  program terminates on a fault before the kernel has performed any pipe operation, or
  the trace starts with the harness writing 256 values into each input pipe, followed by
  the kernel reading 256 values from each: the values written into a pipe are the values
  read from it, and all the writes come before the first read.
\<close>

theorem input_pipes_balanced:
  assumes "run_task rt = (\<lambda>k. k)"
  shows "fst (main rt) = Terminate
         \<and> (\<forall>p. reads_of p (trace (pipe_state (snd (main rt)))) = [])
         \<and> writes_of IDPipeC (trace (pipe_state (snd (main rt)))) = []
       \<or> (\<exists>rest. trace (pipe_state (snd (main rt)))
                    = paired_writes (input_a kVectorSize) (input_b kVectorSize)
                      @ paired_reads (input_a kVectorSize) (input_b kVectorSize) @ rest
                \<and> writes_of IDPipeA rest = [] \<and> writes_of IDPipeB rest = []
                \<and> reads_of IDPipeA rest = [] \<and> reads_of IDPipeB rest = [])
         \<and> writes_of IDPipeA (trace (pipe_state (snd (main rt)))) = input_a kVectorSize
         \<and> reads_of IDPipeA (trace (pipe_state (snd (main rt)))) = input_a kVectorSize
         \<and> writes_of IDPipeB (trace (pipe_state (snd (main rt)))) = input_b kVectorSize
         \<and> reads_of IDPipeB (trace (pipe_state (snd (main rt)))) = input_b kVectorSize
         \<and> length (input_a kVectorSize) = 256 \<and> length (input_b kVectorSize) = 256"
proof -
  let ?tr = "trace (pipe_state (snd (main rt)))"
  let ?W = "paired_writes (input_a kVectorSize) (input_b kVectorSize)"
  let ?R = "paired_reads (input_a kVectorSize) (input_b kVectorSize)"
  let ?early = "fst (main rt) = Terminate \<and> (\<forall>p. reads_of p ?tr = []) \<and> writes_of IDPipeC ?tr = []"
  have len: "length (input_a kVectorSize) = length (input_b kVectorSize)"
    by simp
  have full: "(\<exists>rest. ?tr = ?W @ ?R @ rest
                \<and> writes_of IDPipeA rest = [] \<and> writes_of IDPipeB rest = []
                \<and> reads_of IDPipeA rest = [] \<and> reads_of IDPipeB rest = [])
         \<and> writes_of IDPipeA ?tr = input_a kVectorSize
         \<and> reads_of IDPipeA ?tr = input_a kVectorSize
         \<and> writes_of IDPipeB ?tr = input_b kVectorSize
         \<and> reads_of IDPipeB ?tr = input_b kVectorSize
         \<and> length (input_a kVectorSize) = 256 \<and> length (input_b kVectorSize) = 256"
    if tr: "?tr = ?W @ ?R @ rest"
      and rest: "writes_of IDPipeA rest = []" "writes_of IDPipeB rest = []"
        "reads_of IDPipeA rest = []" "reads_of IDPipeB rest = []" for rest
  proof -
    have "writes_of IDPipeA (?W @ ?R @ rest) = input_a kVectorSize"
      "reads_of IDPipeA (?W @ ?R @ rest) = input_a kVectorSize"
      "writes_of IDPipeB (?W @ ?R @ rest) = input_b kVectorSize"
      "reads_of IDPipeB (?W @ ?R @ rest) = input_b kVectorSize"
      by (simp_all add: rest writes_of_paired_writes [OF len] reads_of_paired_reads [OF len])
    moreover have "length (input_a kVectorSize) = 256" "length (input_b kVectorSize) = 256"
      by (simp_all add: kVectorSize_facts(3))
    ultimately show ?thesis
      using tr rest by metis
  qed
  show ?thesis
  proof (cases "main_try rt kVectorSize start")
    case (Normal r w)
    obtain code calc expected_sum where r: "r = (code, calc, expected_sum)"
      by (cases r) auto
    from main_try_faithful_Normal(4) [OF assms kVectorSize_facts(1) Normal [unfolded r]]
    have "?tr = ?W @ ?R
            @ [Pipe_write IDPipeC (kVectorSize * kVectorSize),
               Pipe_read IDPipeC (kVectorSize * kVectorSize)]"
      by (simp add: main_def Normal r)
    from full [OF this] show ?thesis by simp
  next
    case (Throw ex w)
    note T = main_Throw [OF Throw]
    from main_try_faithful_Throw(2) [OF assms kVectorSize_facts(1) Throw]
    show ?thesis
    proof
      assume "(\<forall>p. reads_of p (trace (pipe_state w)) = [])
          \<and> writes_of IDPipeC (trace (pipe_state w)) = []"
      with T have ?early by simp
      then show ?thesis by (rule disjI1)
    next
      assume "trace (pipe_state w) = ?W @ ?R @ [Pipe_write IDPipeC (kVectorSize * kVectorSize)]"
      with T have "?tr = ?W @ ?R @ [Pipe_write IDPipeC (kVectorSize * kVectorSize)]"
        by simp
      from full [OF this] show ?thesis by simp
    qed
  next
    case (Hang w)
    with main_try_faithful_no_Hang [OF assms] show ?thesis by blast
  qed
qed

theorem input_pipes_balanced_witness:
  "run_task faithful_runtime = (\<lambda>k. k)
   \<and> length (writes_of IDPipeA (trace (pipe_state (snd (main faithful_runtime))))) = 256
   \<and> length (reads_of IDPipeA (trace (pipe_state (snd (main faithful_runtime))))) = 256
   \<and> length (writes_of IDPipeB (trace (pipe_state (snd (main faithful_runtime))))) = 256
   \<and> length (reads_of IDPipeB (trace (pipe_state (snd (main faithful_runtime))))) = 256"
proof -
  have dev: "run_task faithful_runtime = (\<lambda>k. k)"
    by (simp add: faithful_runtime_def)
  from main_try_faithful_runtime have "fst (main faithful_runtime) = Exit 0"
    by (auto simp: main_def EXIT_SUCCESS_def)
  then have "fst (main faithful_runtime) \<noteq> Terminate"
    by simp
  with input_pipes_balanced [OF dev] dev show ?thesis
    by simp
qed




end
